theory Spec2Isabelle
  imports Main "HOL-Library.Word" "HOL-Library.FSet"
begin

section \<open>Go values used by the package\<close>

text \<open>
  The package \<^verbatim>\<open>cluster\<close> (files \<^verbatim>\<open>cluster.go\<close> and the partition file) is embedded
  function by function. Go's \<^verbatim>\<open>int64\<close> and \<^verbatim>\<open>int32\<close> are words of that width, compared
  as signed numbers (\<open>word_sle\<close>, \<open>word_sless\<close>). Strings are byte lists.
\<close>

type_synonym int64 = "64 word"
type_synonym int32 = "32 word"

text \<open>Run-time panics of Go that the package can reach.\<close>

datatype panic = NilMapWrite | NilDereference | CloseOfClosedChannel

text \<open>
  Go's \<^verbatim>\<open>error\<close> values, as far as the package tells them apart: the package compares
  against \<^verbatim>\<open>sarama.ErrOffsetOutOfRange\<close> only. The value \<^verbatim>\<open>nil\<close> of the interface is
  \<open>None\<close> of \<open>go_error option\<close>.
\<close>

datatype go_error = ErrOffsetOutOfRange | ErrOther string

subsection \<open>Maps used as sets: \<^verbatim>\<open>map[int64]struct{}\<close>\<close>

text \<open>
  A Go map value is either \<^verbatim>\<open>nil\<close> or an allocated table. Reading a nil map behaves as
  reading an empty one (\<^verbatim>\<open>len\<close> is 0, \<^verbatim>\<open>range\<close> runs no iteration, \<^verbatim>\<open>delete\<close> does
  nothing); assigning to an entry of a nil map panics.
\<close>

datatype 'k gomap = NilMap | GoMap "'k fset"

fun map_keys :: "'k gomap \<Rightarrow> 'k fset" where
  "map_keys NilMap = {||}"
| "map_keys (GoMap s) = s"

definition map_len :: "'k gomap \<Rightarrow> nat" where
  "map_len m = fcard (map_keys m)"

fun map_assign :: "'k gomap \<Rightarrow> 'k \<Rightarrow> panic + 'k gomap" where
  "map_assign NilMap k = Inl NilMapWrite"
| "map_assign (GoMap s) k = Inr (GoMap (finsert k s))"

fun map_delete :: "'k gomap \<Rightarrow> 'k \<Rightarrow> 'k gomap" where
  "map_delete NilMap k = NilMap"
| "map_delete (GoMap s) k = GoMap (s |-| {|k|})"

text \<open>
  The order in which \<^verbatim>\<open>range\<close> visits the keys of a map is chosen by the run time, anew
  for every loop. A function that ranges over a map takes the order as an argument
  \<open>ks\<close>; \<open>range_order m ks\<close> says that \<open>ks\<close> is an order the run time may choose for \<open>m\<close>:
  every key once.
\<close>

definition range_order :: "'k gomap \<Rightarrow> 'k list \<Rightarrow> bool" where
  "range_order m ks \<longleftrightarrow> distinct ks \<and> fset_of_list ks = map_keys m"

subsection \<open>\<^verbatim>\<open>strconv\<close> and \<^verbatim>\<open>strings\<close> of the standard library\<close>

text \<open>
  \<^verbatim>\<open>strconv.FormatInt(k, 10)\<close>: the decimal digits of the magnitude, most significant
  first, after a minus sign for a negative number.
\<close>

definition digit_char :: "nat \<Rightarrow> char" where
  "digit_char d = char_of (48 + d)"

fun formatBits :: "nat \<Rightarrow> string" where
  "formatBits u = (if u < 10 then [digit_char u]
                   else formatBits (u div 10) @ [digit_char (u mod 10)])"

declare formatBits.simps [simp del]

definition FormatInt :: "int64 \<Rightarrow> string" where
  "FormatInt k = (if sint k < 0 then CHR ''-'' # formatBits (nat (- sint k))
                  else formatBits (nat (sint k)))"

text \<open>
  \<^verbatim>\<open>strconv.ParseUint(s, 10, 64)\<close>: the empty string and every byte that is not a decimal
  digit are syntax errors (a letter is a digit of a base above 10, an underscore is
  accepted with base 0 only); a value that does not fit 64 bits is a range error,
  reported at the digit where the accumulator overflows.
\<close>

datatype num_error = ErrSyntax | ErrRange

definition maxUint64 :: nat where
  "maxUint64 = 2 ^ 64 - 1"

fun ParseUint_loop :: "nat \<Rightarrow> string \<Rightarrow> num_error + nat" where
  "ParseUint_loop n [] = Inr n"
| "ParseUint_loop n (c # cs) =
     (if 48 \<le> (of_char c :: nat) \<and> (of_char c :: nat) \<le> 57 then
        (let d = (of_char c :: nat) - 48 in
         if maxUint64 div 10 + 1 \<le> n then Inl ErrRange
         else if maxUint64 < n * 10 + d then Inl ErrRange
         else ParseUint_loop (n * 10 + d) cs)
      else Inl ErrSyntax)"

definition ParseUint :: "string \<Rightarrow> num_error + nat" where
  "ParseUint s = (if s = [] then Inl ErrSyntax else ParseUint_loop 0 s)"

text \<open>
  \<^verbatim>\<open>strconv.ParseInt(s, 10, 64)\<close>: an optional sign, then \<^verbatim>\<open>ParseUint\<close>; every error of
  \<^verbatim>\<open>ParseUint\<close> is an error here (its range error carries the maximal value, which is
  beyond the signed cutoff), and so is a magnitude beyond the signed range.
\<close>

definition ParseInt :: "string \<Rightarrow> num_error + int64" where
  "ParseInt s =
     (if s = [] then Inl ErrSyntax
      else
        (let neg = (hd s = CHR ''-'');
             s1 = (if hd s = CHR ''+'' \<or> hd s = CHR ''-'' then tl s else s)
         in case ParseUint s1 of
              Inl err \<Rightarrow> Inl err
            | Inr un \<Rightarrow>
                if \<not> neg \<and> 2 ^ 63 \<le> un then Inl ErrRange
                else if neg \<and> 2 ^ 63 < un then Inl ErrRange
                else if neg then Inr (- (word_of_nat un)) else Inr (word_of_nat un)))"

text \<open>
  \<^verbatim>\<open>strings.Split(s, sep)\<close> for a separator of one byte: the pieces between the
  separators, so one piece more than there are separators; the empty string gives one
  empty piece.
\<close>

fun Split :: "string \<Rightarrow> char \<Rightarrow> string list" where
  "Split [] sep = [[]]"
| "Split (c # s) sep =
     (if c = sep then [] # Split s sep
      else (case Split s sep of
              [] \<Rightarrow> [[c]]
            | t # ts \<Rightarrow> (c # t) # ts))"

text \<open>
  \<^verbatim>\<open>sort.Search(n, f)\<close>: binary search for the least index in \<open>[0, n)\<close> at which \<open>f\<close>
  holds, \<open>n\<close> when there is none, for an \<open>f\<close> that is false on a prefix and true after
  it. Indices are below the length of a slice, so the midpoint does not overflow.
\<close>

function Search_loop :: "(nat \<Rightarrow> bool) \<Rightarrow> nat \<Rightarrow> nat \<Rightarrow> nat" where
  "Search_loop f i j =
     (if i < j then
        (let h = (i + j) div 2 in
         if \<not> f h then Search_loop f (h + 1) j else Search_loop f i h)
      else i)"
  by pat_completeness auto
termination
  by (relation "measure (\<lambda>(f, i, j). j - i)") auto

declare Search_loop.simps [simp del]

definition Search :: "nat \<Rightarrow> (nat \<Rightarrow> bool) \<Rightarrow> nat" where
  "Search n f = Search_loop f 0 n"

section \<open>cluster.go\<close>

subsection \<open>\<^verbatim>\<open>offsetInfo\<close>\<close>

record offsetInfo =
  Offset :: int64
  PendingOffsets :: "int64 gomap"
  Metadata :: string

text \<open>
  \<^verbatim>\<open>Serialize\<close>: the loop appends, for every key in the order \<open>ks\<close> of the range, its
  decimal form and a comma to \<^verbatim>\<open>meta\<close>. The receiver is a copy; the copy is returned.
\<close>

fun Serialize_loop :: "string \<Rightarrow> int64 list \<Rightarrow> string" where
  "Serialize_loop meta [] = meta"
| "Serialize_loop meta (k # ks) = Serialize_loop (meta @ FormatInt k @ '','') ks"

definition Serialize :: "int64 list \<Rightarrow> offsetInfo \<Rightarrow> offsetInfo" where
  "Serialize ks i = i\<lparr>Metadata := Serialize_loop [] ks\<rparr>"

text \<open>
  \<^verbatim>\<open>Deserialize\<close>: the loop over the pieces of the metadata skips an empty piece and a
  piece that \<^verbatim>\<open>ParseInt\<close> rejects, and assigns every other into the map, which panics
  when the map is nil.
\<close>

fun Deserialize_loop :: "int64 gomap \<Rightarrow> string list \<Rightarrow> panic + int64 gomap" where
  "Deserialize_loop m [] = Inr m"
| "Deserialize_loop m (k # parts) =
     (if k = [] then Deserialize_loop m parts
      else (case ParseInt k of
              Inl err \<Rightarrow> Deserialize_loop m parts
            | Inr offset \<Rightarrow>
                (case map_assign m offset of
                   Inl p \<Rightarrow> Inl p
                 | Inr m' \<Rightarrow> Deserialize_loop m' parts)))"

definition Deserialize :: "offsetInfo \<Rightarrow> panic + offsetInfo" where
  "Deserialize i =
     (case Deserialize_loop (PendingOffsets i) (Split (Metadata i) CHR '','') of
        Inl p \<Rightarrow> Inl p
      | Inr m \<Rightarrow> Inr (i\<lparr>PendingOffsets := m\<rparr>))"

text \<open>
  \<^verbatim>\<open>NextOffset\<close>: the range over the pending offsets returns in its first iteration,
  with the first key of the order \<open>ks\<close>; a range that runs no iteration falls through to
  the confirmed offset.
\<close>

definition NextOffset :: "int64 list \<Rightarrow> offsetInfo \<Rightarrow> int64 \<Rightarrow> int64" where
  "NextOffset ks i fallback =
     (if word_sless (- 1) (Offset i) then
        (if 0 < map_len (PendingOffsets i) then
           (case ks of k # _ \<Rightarrow> k | [] \<Rightarrow> Offset i)
         else Offset i)
      else fallback)"

subsection \<open>\<^verbatim>\<open>int32Slice.Diff\<close>\<close>

fun Diff_loop :: "int32 list \<Rightarrow> int32 list \<Rightarrow> int32 list \<Rightarrow> int32 list" where
  "Diff_loop res [] os = res"
| "Diff_loop res (x # p) os =
     (let on = length os;
          n = Search on (\<lambda>i. word_sle x (os ! i))
      in if n < on \<and> os ! n = x then Diff_loop res p os
         else Diff_loop (res @ [x]) p os)"

definition Diff :: "int32 list \<Rightarrow> int32 list \<Rightarrow> int32 list" where
  "Diff p os = Diff_loop [] p os"

section \<open>The partition consumer\<close>

record partitionState =
  Info :: offsetInfo
  Dirty :: bool

text \<open>The zero value \<^verbatim>\<open>partitionState{}\<close>: offset 0, a nil map, no metadata, not dirty.\<close>

definition zero_partitionState :: partitionState where
  "zero_partitionState =
     \<lparr>Info = \<lparr>Offset = 0, PendingOffsets = NilMap, Metadata = []\<rparr>, Dirty = False\<rparr>"

text \<open>
  A channel that is only ever closed, never sent on, is open or closed. The stream
  handle \<^verbatim>\<open>pcm\<close> belongs to the client library; its type is a parameter. The mutex
  is left out: the model runs one call at a time.
\<close>

datatype chan = Open | Closed

record 'p partitionConsumer =
  pcm :: 'p
  state :: partitionState
  closed :: bool
  dying :: chan
  dead :: chan

text \<open>
  \<^verbatim>\<open>newPartitionConsumer\<close>. \<open>ConsumePartition\<close> is the manager's method, taken as a
  function from topic, partition and starting offset to an error or a stream; \<open>ks\<close> is the
  order of the range inside \<^verbatim>\<open>NextOffset\<close>.
\<close>

definition newPartitionConsumer ::
  "(string \<Rightarrow> int32 \<Rightarrow> int64 \<Rightarrow> go_error + 'p) \<Rightarrow> int64 list \<Rightarrow> string \<Rightarrow> int32 \<Rightarrow>
     offsetInfo \<Rightarrow> int64 \<Rightarrow> go_error + 'p partitionConsumer" where
  "newPartitionConsumer ConsumePartition ks topic part info defaultOffset =
     (case ConsumePartition topic part (NextOffset ks info defaultOffset) of
        Inr p \<Rightarrow>
          Inr \<lparr>pcm = p, state = \<lparr>Info = info, Dirty = False\<rparr>,
               closed = False, dying = Open, dead = Open\<rparr>
      | Inl err \<Rightarrow>
          if err = ErrOffsetOutOfRange then
            (case ConsumePartition topic part defaultOffset of
               Inr p \<Rightarrow>
                 Inr \<lparr>pcm = p, state = \<lparr>Info = info\<lparr>Offset := - 1\<rparr>, Dirty = False\<rparr>,
                      closed = False, dying = Open, dead = Open\<rparr>
             | Inl err' \<Rightarrow> Inl err')
          else Inl err)"

text \<open>
  A method with a pointer receiver takes the handle as an option, \<open>None\<close> for the nil
  pointer, and returns the consumer as the call leaves it. Reading a field through a nil
  pointer panics.

  \<^verbatim>\<open>Close\<close>. \<open>pcm_Close\<close> is the stream's own \<^verbatim>\<open>Close\<close>: its result and the stream
  afterwards. The receive from \<^verbatim>\<open>dead\<close> returns once that channel is closed, which the
  forwarding loop does when it exits; \<open>looping\<close> says whether a forwarding loop is
  running for this consumer. With neither the call never returns: \<open>Blocked\<close>.
\<close>

datatype 'a outcome = Returned 'a | Panicked panic | Blocked

definition Close ::
  "('p \<Rightarrow> go_error option \<times> 'p) \<Rightarrow> bool \<Rightarrow> 'p partitionConsumer option \<Rightarrow>
     (go_error option \<times> 'p partitionConsumer) outcome" where
  "Close pcm_Close looping h =
     (case h of
        None \<Rightarrow> Panicked NilDereference
      | Some c \<Rightarrow>
          if closed c then Returned (None, c)
          else
            (let (err, p) = pcm_Close (pcm c);
                 c1 = c\<lparr>pcm := p, closed := True\<rparr>
             in if dying c1 = Closed then Panicked CloseOfClosedChannel
                else
                  (let c2 = c1\<lparr>dying := Closed\<rparr>
                   in if dead c2 = Closed then Returned (err, c2)
                      else if looping then Returned (err, c2\<lparr>dead := Closed\<rparr>)
                      else Blocked)))"

text \<open>
  \<^verbatim>\<open>State\<close>. The snapshot is a copy of the struct, but a Go map is a reference: what
  \<^verbatim>\<open>Deserialize\<close> assigns into the copy's map is in the consumer's map as well, so the
  consumer is returned with it. \<open>ks\<close> is the order of the range inside \<^verbatim>\<open>Serialize\<close>.
\<close>

definition State ::
  "int64 list \<Rightarrow> 'p partitionConsumer option \<Rightarrow>
     panic + (partitionState \<times> 'p partitionConsumer option)" where
  "State ks h =
     (case h of
        None \<Rightarrow> Inr (zero_partitionState, None)
      | Some c \<Rightarrow>
          (let st = state c in
           if Metadata (Info st) = [] then
             Inr (st\<lparr>Info := Serialize ks (Info st)\<rparr>, Some c)
           else if map_len (PendingOffsets (Info st)) = 0 then
             (case Deserialize (Info st) of
                Inl p \<Rightarrow> Inl p
              | Inr i \<Rightarrow>
                  Inr (st\<lparr>Info := i\<rparr>,
                       Some (c\<lparr>state := st\<lparr>Info := (Info st)\<lparr>PendingOffsets := PendingOffsets i\<rparr>\<rparr>\<rparr>)))
           else Inr (st, Some c)))"

definition MarkCommitted :: "'p partitionConsumer option \<Rightarrow> int64 \<Rightarrow> 'p partitionConsumer option" where
  "MarkCommitted h offset =
     (case h of
        None \<Rightarrow> None
      | Some c \<Rightarrow>
          if offset = Offset (Info (state c)) \<or> Metadata (Info (state c)) \<noteq> [] then
            Some (c\<lparr>state := (state c)\<lparr>Dirty := False\<rparr>\<rparr>)
          else Some c)"

definition AddPendingOffset ::
  "'p partitionConsumer option \<Rightarrow> int64 \<Rightarrow> panic + 'p partitionConsumer option" where
  "AddPendingOffset h offset =
     (case h of
        None \<Rightarrow> Inl NilDereference
      | Some c \<Rightarrow>
          (case map_assign (PendingOffsets (Info (state c))) offset of
             Inl p \<Rightarrow> Inl p
           | Inr m \<Rightarrow> Inr (Some (c\<lparr>state := (state c)\<lparr>Info := (Info (state c))\<lparr>PendingOffsets := m\<rparr>\<rparr>\<rparr>))))"

text \<open>\<open>pcm_SetOffset\<close> is the stream's own \<^verbatim>\<open>SetOffset\<close>: the stream after the call.\<close>

definition SetOffset ::
  "('p \<Rightarrow> int64 \<Rightarrow> 'p) \<Rightarrow> 'p partitionConsumer option \<Rightarrow> int64 \<Rightarrow>
     panic + 'p partitionConsumer option" where
  "SetOffset pcm_SetOffset h offset =
     (case h of
        None \<Rightarrow> Inl NilDereference
      | Some c \<Rightarrow> Inr (Some (c\<lparr>pcm := pcm_SetOffset (pcm c) offset\<rparr>)))"

definition RemovePendingOffset ::
  "'p partitionConsumer option \<Rightarrow> int64 \<Rightarrow> panic + 'p partitionConsumer option" where
  "RemovePendingOffset h offset =
     (case h of
        None \<Rightarrow> Inl NilDereference
      | Some c \<Rightarrow>
          Inr (Some (c\<lparr>state := (state c)\<lparr>Info := (Info (state c))
                 \<lparr>PendingOffsets := map_delete (PendingOffsets (Info (state c))) offset\<rparr>\<rparr>\<rparr>)))"

definition MarkOffset ::
  "'p partitionConsumer option \<Rightarrow> int64 \<Rightarrow> string \<Rightarrow> 'p partitionConsumer option" where
  "MarkOffset h offset metadata =
     (case h of
        None \<Rightarrow> None
      | Some c \<Rightarrow>
          if word_sless (Offset (Info (state c))) offset then
            (let c1 = c\<lparr>state := (state c)\<lparr>Info := (Info (state c))\<lparr>Offset := offset\<rparr>\<rparr>\<rparr>;
                 c2 = (if metadata \<noteq> [] then
                         c1\<lparr>state := (state c1)\<lparr>Info := (Info (state c1))\<lparr>Metadata := metadata\<rparr>\<rparr>\<rparr>
                       else c1)
             in Some (c2\<lparr>state := (state c2)\<lparr>Dirty := True\<rparr>\<rparr>))
          else Some c)"

section \<open>Specification-side notions\<close>

text \<open>
  The valid tokens of a metadata string, in the words of the specification: the pieces
  between the commas that parse as a decimal \<^verbatim>\<open>int64\<close>, as numbers. The empty piece does
  not parse.
\<close>

definition parsed_offsets :: "string list \<Rightarrow> int64 list" where
  "parsed_offsets parts =
     concat (map (\<lambda>k. case ParseInt k of Inl err \<Rightarrow> [] | Inr n \<Rightarrow> [n]) parts)"

definition valid_offsets :: "string \<Rightarrow> int64 list" where
  "valid_offsets md = parsed_offsets (Split md CHR '','')"

text \<open>
  A decimal token, in the words of the specification: a non-empty string of the digits
  \<^verbatim>\<open>0\<close> to \<^verbatim>\<open>9\<close>, read as a number in base ten.
\<close>

definition is_digit :: "char \<Rightarrow> bool" where
  "is_digit c \<longleftrightarrow> 48 \<le> (of_char c :: nat) \<and> (of_char c :: nat) \<le> 57"

definition decimal_value :: "string \<Rightarrow> nat" where
  "decimal_value s = foldl (\<lambda>n c. 10 * n + ((of_char c :: nat) - 48)) 0 s"

section \<open>Maps and signed comparison\<close>

lemma map_len_0_iff: "map_len m = 0 \<longleftrightarrow> map_keys m = {||}"
  by (simp add: map_len_def)

lemma map_len_pos_iff: "0 < map_len m \<longleftrightarrow> map_keys m \<noteq> {||}"
  by (simp add: map_len_def flip: fcard_0_eq)

lemma range_order_hd:
  assumes "range_order m ks" and "map_keys m \<noteq> {||}"
  obtains k ks' where "ks = k # ks'" and "k |\<in>| map_keys m"
proof (cases ks)
  case Nil
  with assms show ?thesis by (simp add: range_order_def)
next
  case (Cons k ks')
  from assms(1) have "fset_of_list ks = map_keys m" by (simp add: range_order_def)
  with Cons have "k |\<in>| map_keys m" by auto
  with Cons show ?thesis by (rule that)
qed

lemma sle_zero_iff_sless_minus_one: "word_sle 0 (x :: int64) \<longleftrightarrow> word_sless (- 1) x"
  by (simp add: word_sle_eq word_sless_alt) linarith

section \<open>\<^verbatim>\<open>NextOffset\<close>\<close>

text \<open>
  Claim C1, as amended. As stated (every ledger with a non-empty pending set) the claim
  fails: the guard \<^verbatim>\<open>i.Offset > -1\<close> comes first, and a ledger without a confirmed
  offset gets the fallback whatever is pending. For every ledger with a confirmed offset
  above \<open>-1\<close> and a non-empty pending set, and every order of the range, \<^verbatim>\<open>NextOffset(f)\<close>
  is a member of the pending set, for every fallback \<open>f\<close>.
\<close>

theorem NextOffset_pending_member:
  assumes "range_order (PendingOffsets i) ks"
    and "map_keys (PendingOffsets i) \<noteq> {||}"
    and "word_sless (- 1) (Offset i)"
  shows "NextOffset ks i f |\<in>| map_keys (PendingOffsets i)"
proof -
  from assms(1,2) obtain k ks' where "ks = k # ks'" and "k |\<in>| map_keys (PendingOffsets i)"
    by (rule range_order_hd)
  with assms(2,3) show ?thesis
    by (simp add: NextOffset_def map_len_pos_iff)
qed

theorem NextOffset_pending_member_witness:
  "range_order (PendingOffsets \<lparr>Offset = 3, PendingOffsets = GoMap {|5, 9|}, Metadata = []\<rparr>) [9, 5]
   \<and> map_keys (PendingOffsets \<lparr>Offset = 3, PendingOffsets = GoMap {|5, 9|}, Metadata = []\<rparr>) \<noteq> {||}
   \<and> word_sless (- 1) (Offset \<lparr>Offset = 3, PendingOffsets = GoMap {|5, 9|}, Metadata = []\<rparr>)
   \<and> NextOffset [9, 5] \<lparr>Offset = 3, PendingOffsets = GoMap {|5, 9|}, Metadata = []\<rparr> 0
        |\<in>| map_keys (PendingOffsets \<lparr>Offset = 3, PendingOffsets = GoMap {|5, 9|}, Metadata = []\<rparr>)"
proof -
  let ?i = "\<lparr>Offset = 3, PendingOffsets = GoMap {|5, 9|}, Metadata = []\<rparr>"
  have r: "range_order (PendingOffsets ?i) [9, 5]" by (auto simp add: range_order_def)
  have n: "map_keys (PendingOffsets ?i) \<noteq> {||}" by simp
  have s: "word_sless (- 1) (Offset ?i)" by (simp add: word_sless_alt)
  from r n s NextOffset_pending_member [OF r n s, of 0] show ?thesis by blast
qed

text \<open>
  The ledger with offset \<open>-1\<close> and the pending set \<open>{5}\<close>: the only order of the range is
  \<open>[5]\<close>, and \<^verbatim>\<open>NextOffset(0)\<close> is the fallback 0, which is not pending.
\<close>

theorem NextOffset_pending_member_counterexample:
  "range_order (PendingOffsets \<lparr>Offset = - 1, PendingOffsets = GoMap {|5|}, Metadata = []\<rparr>) [5]
   \<and> map_keys (PendingOffsets \<lparr>Offset = - 1, PendingOffsets = GoMap {|5|}, Metadata = []\<rparr>) \<noteq> {||}
   \<and> NextOffset [5] \<lparr>Offset = - 1, PendingOffsets = GoMap {|5|}, Metadata = []\<rparr> 0
        |\<notin>| map_keys (PendingOffsets \<lparr>Offset = - 1, PendingOffsets = GoMap {|5|}, Metadata = []\<rparr>)"
  by (simp add: range_order_def NextOffset_def)

text \<open>
  Claim C2. The selection rule of \<^verbatim>\<open>NextOffset(fallback)\<close>, for every order of the range:
  with a confirmed offset above \<open>-1\<close> the result is a member of the pending set when that
  set is non-empty and the confirmed offset otherwise; with the confirmed offset \<open>-1\<close> it
  is the fallback. In particular a ledger with offset \<open>-1\<close> and nothing pending gives the
  fallback, and a ledger with an offset of at least 0 and nothing pending gives its
  offset, whatever the fallback.
\<close>

theorem NextOffset_selection:
  assumes "range_order (PendingOffsets i) ks"
  shows "(word_sless (- 1) (Offset i) \<and> map_keys (PendingOffsets i) \<noteq> {||}
            \<longrightarrow> NextOffset ks i f |\<in>| map_keys (PendingOffsets i))
       \<and> (word_sless (- 1) (Offset i) \<and> map_keys (PendingOffsets i) = {||}
            \<longrightarrow> NextOffset ks i f = Offset i)
       \<and> (Offset i = - 1 \<longrightarrow> NextOffset ks i f = f)
       \<and> (Offset i = - 1 \<and> map_keys (PendingOffsets i) = {||} \<longrightarrow> NextOffset ks i f = f)
       \<and> (word_sle 0 (Offset i) \<and> map_keys (PendingOffsets i) = {||}
            \<longrightarrow> NextOffset ks i f = Offset i)"
proof (intro conjI impI)
  assume a: "word_sless (- 1) (Offset i) \<and> map_keys (PendingOffsets i) \<noteq> {||}"
  with assms obtain k ks' where "ks = k # ks'" and "k |\<in>| map_keys (PendingOffsets i)"
    by (blast elim: range_order_hd)
  with a show "NextOffset ks i f |\<in>| map_keys (PendingOffsets i)"
    by (simp add: NextOffset_def map_len_pos_iff)
next
  assume "word_sless (- 1) (Offset i) \<and> map_keys (PendingOffsets i) = {||}"
  then show "NextOffset ks i f = Offset i"
    by (simp add: NextOffset_def map_len_pos_iff)
next
  assume "Offset i = - 1"
  then show "NextOffset ks i f = f" by (simp add: NextOffset_def)
next
  assume "Offset i = - 1 \<and> map_keys (PendingOffsets i) = {||}"
  then show "NextOffset ks i f = f" by (simp add: NextOffset_def)
next
  assume "word_sle 0 (Offset i) \<and> map_keys (PendingOffsets i) = {||}"
  then show "NextOffset ks i f = Offset i"
    by (simp add: NextOffset_def map_len_pos_iff sle_zero_iff_sless_minus_one)
qed

theorem NextOffset_selection_witness:
  "range_order (PendingOffsets \<lparr>Offset = 3, PendingOffsets = GoMap {|5, 9|}, Metadata = []\<rparr>) [9, 5]
   \<and> NextOffset [9, 5] \<lparr>Offset = 3, PendingOffsets = GoMap {|5, 9|}, Metadata = []\<rparr> 0 = 9
   \<and> range_order (PendingOffsets \<lparr>Offset = 7, PendingOffsets = GoMap {||}, Metadata = []\<rparr>) []
   \<and> NextOffset [] \<lparr>Offset = 7, PendingOffsets = GoMap {||}, Metadata = []\<rparr> 0 = 7
   \<and> range_order (PendingOffsets \<lparr>Offset = - 1, PendingOffsets = NilMap, Metadata = []\<rparr>) []
   \<and> NextOffset [] \<lparr>Offset = - 1, PendingOffsets = NilMap, Metadata = []\<rparr> 42 = 42"
proof -
  let ?a = "\<lparr>Offset = 3, PendingOffsets = GoMap {|5, 9|}, Metadata = []\<rparr>"
  let ?b = "\<lparr>Offset = 7, PendingOffsets = GoMap {||}, Metadata = []\<rparr>"
  let ?c = "\<lparr>Offset = - 1, PendingOffsets = NilMap, Metadata = []\<rparr>"
  have ra: "range_order (PendingOffsets ?a) [9, 5]" by (auto simp add: range_order_def)
  have rb: "range_order (PendingOffsets ?b) []" by (simp add: range_order_def)
  have rc: "range_order (PendingOffsets ?c) []" by (simp add: range_order_def)
  have a: "NextOffset [9, 5] ?a 0 |\<in>| {|5, 9|}"
    using NextOffset_selection [OF ra, of 0] by (simp add: word_sless_alt)
  have a': "NextOffset [9, 5] ?a 0 = 9"
    by (simp add: NextOffset_def word_sless_alt map_len_def)
  have b: "NextOffset [] ?b 0 = 7"
    using NextOffset_selection [OF rb, of 0] by (simp add: word_sless_alt)
  have c: "NextOffset [] ?c 42 = 42"
    using NextOffset_selection [OF rc, of 42] by simp
  from ra rb rc a a' b c show ?thesis by blast
qed

section \<open>\<^verbatim>\<open>Close\<close>\<close>

lemma Close_closed: "closed c \<Longrightarrow> Close pcm_Close looping (Some c) = Returned (None, c)"
  by (simp add: Close_def)

lemma Close_Returned_closed:
  assumes "Close pcm_Close looping (Some c) = Returned (e, c')"
  shows "closed c'"
  using assms
  by (auto simp add: Close_def Let_def split: if_splits prod.splits)

text \<open>
  Claim C3, as amended. As stated the claim fails: a later \<^verbatim>\<open>Close\<close> leaves at the guard
  \<^verbatim>\<open>if c.closed { return nil }\<close>, so it returns \<^verbatim>\<open>nil\<close> and not the error of the
  first call. Once a \<^verbatim>\<open>Close\<close> has returned, with whatever result, every later \<^verbatim>\<open>Close\<close>
  on the consumer returns \<^verbatim>\<open>nil\<close> and leaves the consumer as it is, without touching the
  stream or waiting for the forwarding loop; the result is that of the first call exactly
  when the first call returned \<^verbatim>\<open>nil\<close>.
\<close>

theorem Close_again_returns_nil:
  assumes "Close pcm_Close looping (Some c) = Returned (e, c')"
  shows "Close pcm_Close' looping' (Some c') = Returned (None, c')"
  using Close_Returned_closed [OF assms] by (rule Close_closed)

theorem Close_again_returns_nil_witness:
  "Close (Pair (Some (ErrOther ''broken pipe''))) True
     (Some \<lparr>pcm = (), state = zero_partitionState, closed = False, dying = Open, dead = Open\<rparr>)
   = Returned (Some (ErrOther ''broken pipe''),
       \<lparr>pcm = (), state = zero_partitionState, closed = True, dying = Closed, dead = Closed\<rparr>)
   \<and> Close (Pair None) False
     (Some \<lparr>pcm = (), state = zero_partitionState, closed = True, dying = Closed, dead = Closed\<rparr>)
   = Returned (None,
       \<lparr>pcm = (), state = zero_partitionState, closed = True, dying = Closed, dead = Closed\<rparr>)"
proof -
  have first: "Close (Pair (Some (ErrOther ''broken pipe''))) True
     (Some \<lparr>pcm = (), state = zero_partitionState, closed = False, dying = Open, dead = Open\<rparr>)
   = Returned (Some (ErrOther ''broken pipe''),
       \<lparr>pcm = (), state = zero_partitionState, closed = True, dying = Closed, dead = Closed\<rparr>)"
    by (simp add: Close_def)
  from first Close_again_returns_nil [OF first, of "Pair None" False] show ?thesis by blast
qed

text \<open>
  A stream whose \<^verbatim>\<open>Close\<close> reports an error, with a forwarding loop running: the first
  \<^verbatim>\<open>Close\<close> of the consumer returns that error, the second returns \<^verbatim>\<open>nil\<close>.
\<close>

theorem Close_again_counterexample:
  "Close (Pair (Some (ErrOther ''broken pipe''))) True
     (Some \<lparr>pcm = (), state = zero_partitionState, closed = False, dying = Open, dead = Open\<rparr>)
   = Returned (Some (ErrOther ''broken pipe''),
       \<lparr>pcm = (), state = zero_partitionState, closed = True, dying = Closed, dead = Closed\<rparr>)
   \<and> Close (Pair (Some (ErrOther ''broken pipe''))) True
     (Some \<lparr>pcm = (), state = zero_partitionState, closed = True, dying = Closed, dead = Closed\<rparr>)
   = Returned (None,
       \<lparr>pcm = (), state = zero_partitionState, closed = True, dying = Closed, dead = Closed\<rparr>)
   \<and> Some (ErrOther ''broken pipe'') \<noteq> None"
  by (simp add: Close_def)

section \<open>The nil handle\<close>

text \<open>
  \<^verbatim>\<open>State\<close>, \<^verbatim>\<open>MarkOffset\<close> and \<^verbatim>\<open>MarkCommitted\<close> start with \<^verbatim>\<open>if c == nil\<close> and do
  nothing on the nil handle.
\<close>

lemma guarded_methods_nil:
  "State ks None = Inr (zero_partitionState, None)"
  "MarkOffset None offset metadata = None"
  "MarkCommitted None offset = None"
  by (simp_all add: State_def MarkOffset_def MarkCommitted_def)

text \<open>
  Claim C4 says that all six state accessors are safe on the nil handle. The code of
  \<^verbatim>\<open>AddPendingOffset\<close>, \<^verbatim>\<open>RemovePendingOffset\<close> and \<^verbatim>\<open>SetOffset\<close> has no such guard:
  each reads a field through the receiver at once, which on the nil handle is a nil
  pointer dereference, for every offset.
\<close>

theorem unguarded_methods_nil_panic:
  "AddPendingOffset None offset = Inl NilDereference
   \<and> RemovePendingOffset None offset = Inl NilDereference
   \<and> SetOffset pcm_SetOffset None offset = Inl NilDereference"
  by (simp add: AddPendingOffset_def RemovePendingOffset_def SetOffset_def)

section \<open>\<^verbatim>\<open>MarkOffset\<close> and \<^verbatim>\<open>MarkCommitted\<close>\<close>

text \<open>
  Claim C6. When \<open>offset\<close> is strictly above the confirmed offset (as signed numbers),
  \<^verbatim>\<open>MarkOffset(offset, metadata)\<close> makes \<open>offset\<close> the confirmed offset, takes \<open>metadata\<close>
  when it is not empty and keeps the old metadata otherwise, sets the dirty flag, and
  leaves the pending set alone. When \<open>offset\<close> is below or equal, the whole consumer is
  as before.
\<close>

theorem MarkOffset_advance:
  "(word_sless (Offset (Info (state c))) offset \<longrightarrow>
      MarkOffset (Some c) offset metadata =
        Some (c\<lparr>state := \<lparr>Info = \<lparr>Offset = offset,
                                  PendingOffsets = PendingOffsets (Info (state c)),
                                  Metadata = (if metadata \<noteq> [] then metadata
                                              else Metadata (Info (state c)))\<rparr>,
                         Dirty = True\<rparr>\<rparr>))
   \<and> (\<not> word_sless (Offset (Info (state c))) offset \<longrightarrow>
      MarkOffset (Some c) offset metadata = Some c)"
  by (simp add: MarkOffset_def Let_def)

theorem MarkOffset_advance_witness:
  "word_sless (Offset (Info (state
      \<lparr>pcm = (), state = \<lparr>Info = \<lparr>Offset = 4, PendingOffsets = GoMap {|8|}, Metadata = ''8,''\<rparr>, Dirty = False\<rparr>,
       closed = False, dying = Open, dead = Open\<rparr>))) 6
   \<and> MarkOffset (Some
      \<lparr>pcm = (), state = \<lparr>Info = \<lparr>Offset = 4, PendingOffsets = GoMap {|8|}, Metadata = ''8,''\<rparr>, Dirty = False\<rparr>,
       closed = False, dying = Open, dead = Open\<rparr>) 6 ''m''
     = Some \<lparr>pcm = (), state = \<lparr>Info = \<lparr>Offset = 6, PendingOffsets = GoMap {|8|}, Metadata = ''m''\<rparr>, Dirty = True\<rparr>,
       closed = False, dying = Open, dead = Open\<rparr>
   \<and> \<not> word_sless (Offset (Info (state
      \<lparr>pcm = (), state = \<lparr>Info = \<lparr>Offset = 4, PendingOffsets = GoMap {|8|}, Metadata = ''8,''\<rparr>, Dirty = False\<rparr>,
       closed = False, dying = Open, dead = Open\<rparr>))) 4
   \<and> MarkOffset (Some
      \<lparr>pcm = (), state = \<lparr>Info = \<lparr>Offset = 4, PendingOffsets = GoMap {|8|}, Metadata = ''8,''\<rparr>, Dirty = False\<rparr>,
       closed = False, dying = Open, dead = Open\<rparr>) 4 ''m''
     = Some \<lparr>pcm = (), state = \<lparr>Info = \<lparr>Offset = 4, PendingOffsets = GoMap {|8|}, Metadata = ''8,''\<rparr>, Dirty = False\<rparr>,
       closed = False, dying = Open, dead = Open\<rparr>"
proof -
  let ?c = "\<lparr>pcm = (), state = \<lparr>Info = \<lparr>Offset = 4, PendingOffsets = GoMap {|8|}, Metadata = ''8,''\<rparr>, Dirty = False\<rparr>,
       closed = False, dying = Open, dead = Open\<rparr>"
  have up: "word_sless (Offset (Info (state ?c))) 6" by (simp add: word_sless_alt)
  have eq: "\<not> word_sless (Offset (Info (state ?c))) 4" by (simp add: word_sless_alt)
  from up eq MarkOffset_advance [of ?c 6 "''m''"] MarkOffset_advance [of ?c 4 "''m''"]
  show ?thesis by simp
qed

text \<open>
  Claim C7. \<^verbatim>\<open>MarkCommitted(offset)\<close> clears the dirty flag, and changes nothing else, when
  \<open>offset\<close> is the confirmed offset or the metadata is not empty; in every other case the
  consumer, dirty flag included, is as before.
\<close>

theorem MarkCommitted_clears_dirty:
  "(offset = Offset (Info (state c)) \<or> Metadata (Info (state c)) \<noteq> [] \<longrightarrow>
      MarkCommitted (Some c) offset = Some (c\<lparr>state := (state c)\<lparr>Dirty := False\<rparr>\<rparr>))
   \<and> (\<not> (offset = Offset (Info (state c)) \<or> Metadata (Info (state c)) \<noteq> []) \<longrightarrow>
      MarkCommitted (Some c) offset = Some c)"
  by (simp add: MarkCommitted_def)

theorem MarkCommitted_clears_dirty_witness:
  "MarkCommitted (Some
      \<lparr>pcm = (), state = \<lparr>Info = \<lparr>Offset = 4, PendingOffsets = NilMap, Metadata = []\<rparr>, Dirty = True\<rparr>,
       closed = False, dying = Open, dead = Open\<rparr>) 4
     = Some \<lparr>pcm = (), state = \<lparr>Info = \<lparr>Offset = 4, PendingOffsets = NilMap, Metadata = []\<rparr>, Dirty = False\<rparr>,
       closed = False, dying = Open, dead = Open\<rparr>
   \<and> MarkCommitted (Some
      \<lparr>pcm = (), state = \<lparr>Info = \<lparr>Offset = 4, PendingOffsets = NilMap, Metadata = ''8,''\<rparr>, Dirty = True\<rparr>,
       closed = False, dying = Open, dead = Open\<rparr>) 3
     = Some \<lparr>pcm = (), state = \<lparr>Info = \<lparr>Offset = 4, PendingOffsets = NilMap, Metadata = ''8,''\<rparr>, Dirty = False\<rparr>,
       closed = False, dying = Open, dead = Open\<rparr>
   \<and> MarkCommitted (Some
      \<lparr>pcm = (), state = \<lparr>Info = \<lparr>Offset = 4, PendingOffsets = NilMap, Metadata = []\<rparr>, Dirty = True\<rparr>,
       closed = False, dying = Open, dead = Open\<rparr>) 3
     = Some \<lparr>pcm = (), state = \<lparr>Info = \<lparr>Offset = 4, PendingOffsets = NilMap, Metadata = []\<rparr>, Dirty = True\<rparr>,
       closed = False, dying = Open, dead = Open\<rparr>"
proof -
  let ?c = "\<lparr>pcm = (), state = \<lparr>Info = \<lparr>Offset = 4, PendingOffsets = NilMap, Metadata = []\<rparr>, Dirty = True\<rparr>,
       closed = False, dying = Open, dead = Open\<rparr>"
  let ?d = "\<lparr>pcm = (), state = \<lparr>Info = \<lparr>Offset = 4, PendingOffsets = NilMap, Metadata = ''8,''\<rparr>, Dirty = True\<rparr>,
       closed = False, dying = Open, dead = Open\<rparr>"
  from MarkCommitted_clears_dirty [of 4 ?c] MarkCommitted_clears_dirty [of 3 ?d]
    MarkCommitted_clears_dirty [of 3 ?c]
  show ?thesis by simp
qed

section \<open>\<^verbatim>\<open>Deserialize\<close>\<close>

lemma ParseInt_Nil: "ParseInt [] = Inl ErrSyntax"
  by (simp add: ParseInt_def)

lemma parsed_offsets_simps:
  "parsed_offsets [] = []"
  "parsed_offsets (k # parts) =
     (case ParseInt k of Inl err \<Rightarrow> [] | Inr n \<Rightarrow> [n]) @ parsed_offsets parts"
  by (simp_all add: parsed_offsets_def)

lemma valid_offsets_Nil: "valid_offsets [] = []"
  by (simp add: valid_offsets_def parsed_offsets_def ParseInt_Nil)

text \<open>On an allocated map the loop never fails and adds the parsed offsets.\<close>

lemma Deserialize_loop_GoMap:
  "Deserialize_loop (GoMap S) parts = Inr (GoMap (S |\<union>| fset_of_list (parsed_offsets parts)))"
proof (induction parts arbitrary: S)
  case Nil
  show ?case by (simp add: parsed_offsets_simps)
next
  case (Cons k parts)
  show ?case
  proof (cases "ParseInt k")
    case (Inl err)
    then show ?thesis by (simp add: Cons.IH parsed_offsets_simps)
  next
    case (Inr n)
    then have "k \<noteq> []" by (auto simp add: ParseInt_Nil)
    with Inr show ?thesis by (simp add: Cons.IH parsed_offsets_simps)
  qed
qed

text \<open>Pieces of which none parses leave every map, the nil map too, as it is.\<close>

lemma Deserialize_loop_none_parsed:
  "parsed_offsets parts = [] \<Longrightarrow> Deserialize_loop m parts = Inr m"
proof (induction parts)
  case Nil
  show ?case by simp
next
  case (Cons k parts)
  then show ?case by (cases "ParseInt k") (simp_all add: parsed_offsets_simps)
qed

text \<open>On the nil map the first piece that parses is assigned, and the assignment panics.\<close>

lemma Deserialize_loop_NilMap:
  "parsed_offsets parts \<noteq> [] \<Longrightarrow> Deserialize_loop NilMap parts = Inl NilMapWrite"
proof (induction parts)
  case Nil
  then show ?case by (simp add: parsed_offsets_simps)
next
  case (Cons k parts)
  show ?case
  proof (cases "ParseInt k")
    case (Inl err)
    with Cons show ?thesis by (simp add: parsed_offsets_simps)
  next
    case (Inr n)
    then have "k \<noteq> []" by (auto simp add: ParseInt_Nil)
    with Inr show ?thesis by simp
  qed
qed

text \<open>
  Claim C9, as amended. As stated (every metadata string, no condition on the ledger) the
  claim fails: on a ledger whose pending map is nil the first valid token is assigned
  into the nil map, which panics, so the valid tokens are not in the result. For every
  metadata string and every ledger whose pending map is allocated, \<^verbatim>\<open>Deserialize\<close> drops
  the pieces that do not parse and raises nothing: it returns the ledger with exactly the
  valid offsets of the metadata added to the pending set (so a string with one malformed
  token among valid ones gives, on an empty set, exactly the valid ones). A metadata
  string without any valid token leaves every ledger, one with a nil map too, as it is.
\<close>

theorem Deserialize_drops_malformed:
  "(PendingOffsets i = GoMap S \<longrightarrow>
      Deserialize i =
        Inr (i\<lparr>PendingOffsets := GoMap (S |\<union>| fset_of_list (valid_offsets (Metadata i)))\<rparr>))
   \<and> (valid_offsets (Metadata i) = [] \<longrightarrow> Deserialize i = Inr i)"
  by (simp add: Deserialize_def Deserialize_loop_GoMap Deserialize_loop_none_parsed
      valid_offsets_def)

theorem Deserialize_drops_malformed_witness:
  "valid_offsets ''3,x7,7,'' = [3, 7]
   \<and> Deserialize \<lparr>Offset = 2, PendingOffsets = GoMap {||}, Metadata = ''3,x7,7,''\<rparr>
       = Inr \<lparr>Offset = 2, PendingOffsets = GoMap {|3, 7|}, Metadata = ''3,x7,7,''\<rparr>
   \<and> valid_offsets ''x,,1_0'' = []
   \<and> Deserialize \<lparr>Offset = 2, PendingOffsets = NilMap, Metadata = ''x,,1_0''\<rparr>
       = Inr \<lparr>Offset = 2, PendingOffsets = NilMap, Metadata = ''x,,1_0''\<rparr>"
proof -
  let ?i = "\<lparr>Offset = 2, PendingOffsets = GoMap {||}, Metadata = ''3,x7,7,''\<rparr>"
  let ?j = "\<lparr>Offset = 2, PendingOffsets = NilMap, Metadata = ''x,,1_0''\<rparr>"
  have v: "valid_offsets ''3,x7,7,'' = [3, 7]"
    by (simp add: valid_offsets_def parsed_offsets_def ParseInt_def ParseUint_def maxUint64_def)
  have w: "valid_offsets ''x,,1_0'' = []"
    by (simp add: valid_offsets_def parsed_offsets_def ParseInt_def ParseUint_def maxUint64_def)
  have a: "Deserialize ?i = Inr \<lparr>Offset = 2, PendingOffsets = GoMap {|3, 7|}, Metadata = ''3,x7,7,''\<rparr>"
    using Deserialize_drops_malformed [of ?i "{||}"] by (simp add: v)
  have b: "Deserialize ?j = Inr ?j"
    using Deserialize_drops_malformed [of ?j] by (simp add: w)
  from v w a b show ?thesis by blast
qed

text \<open>
  The claim's own example on the zero-value ledger's map: the metadata \<^verbatim>\<open>3,x7,7,\<close> has
  the valid offsets 3 and 7 around one malformed token, and \<^verbatim>\<open>Deserialize\<close> on a ledger
  with a nil pending map panics at the first of them.
\<close>

theorem Deserialize_drops_malformed_counterexample:
  "valid_offsets ''3,x7,7,'' = [3, 7]
   \<and> Deserialize \<lparr>Offset = 2, PendingOffsets = NilMap, Metadata = ''3,x7,7,''\<rparr>
       = Inl NilMapWrite"
proof -
  have v: "valid_offsets ''3,x7,7,'' = [3, 7]"
    by (simp add: valid_offsets_def parsed_offsets_def ParseInt_def ParseUint_def maxUint64_def)
  have "Deserialize \<lparr>Offset = 2, PendingOffsets = NilMap, Metadata = ''3,x7,7,''\<rparr>
       = Inl NilMapWrite"
    by (simp add: Deserialize_def ParseInt_def ParseUint_def maxUint64_def)
  with v show ?thesis by simp
qed

text \<open>
  Claim C5. \<^verbatim>\<open>Deserialize\<close> needs an allocated pending map: on every ledger whose pending
  map is nil and whose metadata has at least one valid token, the assignment into the
  map panics. So does \<^verbatim>\<open>State\<close> on every consumer that \<^verbatim>\<open>newPartitionConsumer\<close> builds
  from such a ledger, whatever the stream provider answers.
\<close>

theorem Deserialize_nil_map_panics:
  assumes "PendingOffsets info = NilMap" and "valid_offsets (Metadata info) \<noteq> []"
  shows "Deserialize info = Inl NilMapWrite
       \<and> (\<forall>c. newPartitionConsumer ConsumePartition ks topic part info defaultOffset = Inr c
              \<longrightarrow> State ks' (Some c) = Inl NilMapWrite)"
proof
  from assms show d: "Deserialize info = Inl NilMapWrite"
    by (simp add: Deserialize_def Deserialize_loop_NilMap valid_offsets_def)
  from assms(2) have md: "Metadata info \<noteq> []" by (auto simp add: valid_offsets_Nil)
  have d': "Deserialize (info\<lparr>Offset := - 1\<rparr>) = Inl NilMapWrite"
    using assms by (simp add: Deserialize_def Deserialize_loop_NilMap valid_offsets_def)
  show "\<forall>c. newPartitionConsumer ConsumePartition ks topic part info defaultOffset = Inr c
              \<longrightarrow> State ks' (Some c) = Inl NilMapWrite"
  proof (intro allI impI)
    fix c
    assume "newPartitionConsumer ConsumePartition ks topic part info defaultOffset = Inr c"
    then have "Info (state c) = info \<or> Info (state c) = info\<lparr>Offset := - 1\<rparr>"
      by (auto simp add: newPartitionConsumer_def split: sum.splits if_splits)
    with d d' md assms(1) show "State ks' (Some c) = Inl NilMapWrite"
      by (auto simp add: State_def Let_def map_len_def)
  qed
qed

theorem Deserialize_nil_map_panics_witness:
  "PendingOffsets \<lparr>Offset = 2, PendingOffsets = NilMap, Metadata = ''7,''\<rparr> = NilMap
   \<and> valid_offsets (Metadata \<lparr>Offset = 2, PendingOffsets = NilMap, Metadata = ''7,''\<rparr>) \<noteq> []
   \<and> Deserialize \<lparr>Offset = 2, PendingOffsets = NilMap, Metadata = ''7,''\<rparr> = Inl NilMapWrite
   \<and> newPartitionConsumer (\<lambda>t p start. Inr ()) [] ''events'' 0
        \<lparr>Offset = 2, PendingOffsets = NilMap, Metadata = ''7,''\<rparr> 0
       = Inr \<lparr>pcm = (),
              state = \<lparr>Info = \<lparr>Offset = 2, PendingOffsets = NilMap, Metadata = ''7,''\<rparr>, Dirty = False\<rparr>,
              closed = False, dying = Open, dead = Open\<rparr>
   \<and> State [] (Some \<lparr>pcm = (),
              state = \<lparr>Info = \<lparr>Offset = 2, PendingOffsets = NilMap, Metadata = ''7,''\<rparr>, Dirty = False\<rparr>,
              closed = False, dying = Open, dead = Open\<rparr>) = Inl NilMapWrite"
proof -
  let ?i = "\<lparr>Offset = 2, PendingOffsets = NilMap, Metadata = ''7,''\<rparr>"
  have n: "PendingOffsets ?i = NilMap" by simp
  have v: "valid_offsets (Metadata ?i) \<noteq> []"
    by (simp add: valid_offsets_def parsed_offsets_def ParseInt_def ParseUint_def maxUint64_def)
  have c: "newPartitionConsumer (\<lambda>t p start. Inr ()) [] ''events'' 0 ?i 0
       = Inr \<lparr>pcm = (), state = \<lparr>Info = ?i, Dirty = False\<rparr>,
              closed = False, dying = Open, dead = Open\<rparr>"
    by (simp add: newPartitionConsumer_def)
  from n v c
    Deserialize_nil_map_panics [OF n v, of "\<lambda>t p start. Inr ()" "[]" "''events''" 0 0 "[]"]
  show ?thesis by simp
qed

section \<open>\<^verbatim>\<open>Diff\<close>\<close>

text \<open>
  The loop of \<^verbatim>\<open>sort.Search\<close> keeps \<open>f\<close> false below \<open>i\<close> and true at \<open>j\<close>; for an \<open>f\<close>
  that stays true once it is true, it ends at the least index where \<open>f\<close> holds.
\<close>

lemma Search_loop_spec:
  assumes mono: "\<And>a b. a \<le> b \<Longrightarrow> b < n \<Longrightarrow> f a \<Longrightarrow> f b"
  shows "i \<le> j \<Longrightarrow> j \<le> n \<Longrightarrow> \<forall>k<i. \<not> f k \<Longrightarrow> (j < n \<longrightarrow> f j) \<Longrightarrow>
         Search_loop f i j \<le> n \<and> (\<forall>k<Search_loop f i j. \<not> f k)
         \<and> (Search_loop f i j < n \<longrightarrow> f (Search_loop f i j))"
  using mono
proof (induction f i j rule: Search_loop.induct)
  case (1 f i j)
  note mono = "1.prems"(5)
  show ?case
  proof (cases "i < j")
    case False
    then have eq: "Search_loop f i j = i" by (simp add: Search_loop.simps [of f i j])
    from False "1.prems"(1) have "i = j" by simp
    with "1.prems" show ?thesis unfolding eq by simp
  next
    case True
    define h where "h = (i + j) div 2"
    from True have hb: "i \<le> h" "h < j" by (simp_all add: h_def)
    with "1.prems"(2) have hn: "h < n" by simp
    show ?thesis
    proof (cases "f h")
      case fh: True
      with True have eq: "Search_loop f i j = Search_loop f i h"
        by (simp add: Search_loop.simps [of f i j] h_def Let_def)
      have nn: "\<not> \<not> f h" using fh by simp
      have "Search_loop f i h \<le> n \<and> (\<forall>k<Search_loop f i h. \<not> f k)
         \<and> (Search_loop f i h < n \<longrightarrow> f (Search_loop f i h))"
      proof (rule "1.IH"(2) [OF True h_def nn])
        show "i \<le> h" by (rule hb)
        show "h \<le> n" using hn by simp
        show "\<forall>k<i. \<not> f k" by (rule "1.prems"(3))
        show "h < n \<longrightarrow> f h" using fh by simp
        show "\<And>a b. a \<le> b \<Longrightarrow> b < n \<Longrightarrow> f a \<Longrightarrow> f b" by (rule mono)
      qed
      then show ?thesis unfolding eq .
    next
      case nfh: False
      with True have eq: "Search_loop f i j = Search_loop f (h + 1) j"
        by (simp add: Search_loop.simps [of f i j] h_def Let_def)
      have below: "\<forall>k<h + 1. \<not> f k"
      proof (intro allI impI)
        fix k assume "k < h + 1"
        then have "k \<le> h" by simp
        then show "\<not> f k" using nfh hn mono by blast
      qed
      have "Search_loop f (h + 1) j \<le> n \<and> (\<forall>k<Search_loop f (h + 1) j. \<not> f k)
         \<and> (Search_loop f (h + 1) j < n \<longrightarrow> f (Search_loop f (h + 1) j))"
      proof (rule "1.IH"(1) [OF True h_def nfh])
        show "h + 1 \<le> j" using hb by simp
        show "j \<le> n" by (rule "1.prems"(2))
        show "\<forall>k<h + 1. \<not> f k" by (rule below)
        show "j < n \<longrightarrow> f j" by (rule "1.prems"(4))
        show "\<And>a b. a \<le> b \<Longrightarrow> b < n \<Longrightarrow> f a \<Longrightarrow> f b" by (rule mono)
      qed
      then show ?thesis unfolding eq .
    qed
  qed
qed

lemma Search_spec:
  assumes "\<And>a b. a \<le> b \<Longrightarrow> b < n \<Longrightarrow> f a \<Longrightarrow> f b"
  shows "Search n f \<le> n" and "\<forall>k<Search n f. \<not> f k" and "Search n f < n \<Longrightarrow> f (Search n f)"
  using Search_loop_spec [of n f 0 n, OF assms] by (simp_all add: Search_def)

lemma sle_sorted_nth:
  assumes "sorted_wrt word_sle os" and "a \<le> b" and "b < length os"
  shows "word_sle (os ! a) (os ! b)"
proof (cases "a = b")
  case True
  then show ?thesis by (simp add: word_sle_eq)
next
  case False
  with assms(2) have "a < b" by simp
  with assms(1,3) show ?thesis by (simp add: sorted_wrt_nth_less)
qed

text \<open>
  On a slice in ascending signed order, the test after the search in \<^verbatim>\<open>Diff\<close> is
  membership.
\<close>

lemma Search_finds:
  fixes os :: "int32 list" and x :: int32
  assumes "sorted_wrt word_sle os"
  defines "n \<equiv> Search (length os) (\<lambda>i. word_sle x (os ! i))"
  shows "(n < length os \<and> os ! n = x) \<longleftrightarrow> x \<in> set os"
proof
  assume "n < length os \<and> os ! n = x"
  then show "x \<in> set os" by auto
next
  assume "x \<in> set os"
  then obtain m where m: "m < length os" "os ! m = x" by (auto simp add: in_set_conv_nth)
  have mono: "\<And>a b. a \<le> b \<Longrightarrow> b < length os \<Longrightarrow> word_sle x (os ! a) \<Longrightarrow> word_sle x (os ! b)"
  proof -
    fix a b assume "a \<le> b" "b < length os" "word_sle x (os ! a)"
    moreover from this assms(1) have "word_sle (os ! a) (os ! b)" by (simp add: sle_sorted_nth)
    ultimately show "word_sle x (os ! b)" by (simp add: word_sle_eq)
  qed
  have "\<forall>k<n. \<not> word_sle x (os ! k)"
    unfolding n_def by (rule Search_spec(2) [of "length os" "\<lambda>i. word_sle x (os ! i)", OF mono])
  moreover have "word_sle x (os ! m)" using m by (simp add: word_sle_eq)
  ultimately have nm: "n \<le> m" by (meson not_le_imp_less)
  with m have nl: "n < length os" by simp
  have "word_sle x (os ! n)"
    using Search_spec(3) [of "length os" "\<lambda>i. word_sle x (os ! i)", OF mono] nl
    unfolding n_def by simp
  moreover from assms(1) nm m have "word_sle (os ! n) x" by (auto dest: sle_sorted_nth)
  ultimately have "sint (os ! n) = sint x" by (simp add: word_sle_eq)
  then have "os ! n = x" by (rule signed_word_eqI)
  with nl show "n < length os \<and> os ! n = x" by simp
qed

lemma Diff_loop_filter:
  assumes "sorted_wrt word_sle os"
  shows "Diff_loop res p os = res @ filter (\<lambda>x. x \<notin> set os) p"
proof (induction p arbitrary: res)
  case Nil
  show ?case by simp
next
  case (Cons x p)
  show ?case
    using Search_finds [OF assms, of x] by (simp add: Cons.IH Let_def)
qed

lemma Diff_filter:
  "sorted_wrt word_sle os \<Longrightarrow> Diff p os = filter (\<lambda>x. x \<notin> set os) p"
  by (simp add: Diff_def Diff_loop_filter)

text \<open>
  Claim C10. For ascending, deduplicated sequences \<open>A\<close> and \<open>B\<close> (strictly ascending as
  signed 32-bit numbers), \<^verbatim>\<open>A.Diff(B)\<close> is, in the order of \<open>A\<close>, exactly the elements of
  \<open>A\<close> that are not in \<open>B\<close>; \<^verbatim>\<open>A.Diff(A)\<close> and \<^verbatim>\<open>[].Diff(B)\<close> are empty, and
  \<^verbatim>\<open>Diff([0,1,2,3,4,5], [1,3,5])\<close> is \<^verbatim>\<open>[0,2,4]\<close>.
\<close>

theorem Diff_ascending:
  assumes "sorted_wrt word_sless A" and "sorted_wrt word_sless B"
  shows "Diff A B = filter (\<lambda>x. x \<notin> set B) A
       \<and> Diff A A = []
       \<and> Diff [] B = []
       \<and> Diff [0, 1, 2, 3, 4, 5] [1, 3, 5] = [0, 2, 4]"
proof -
  have le: "sorted_wrt word_sle xs" if "sorted_wrt word_sless xs" for xs :: "int32 list"
    using that by (rule sorted_wrt_mono_rel [rotated]) (simp add: word_sle_eq word_sless_alt)
  have "sorted_wrt word_sle [1, 3, 5 :: int32]" by (simp add: word_sle_eq)
  then have "Diff [0, 1, 2, 3, 4, 5] [1, 3, 5] = [0, 2, 4]"
    by (simp add: Diff_filter)
  with assms show ?thesis by (simp add: Diff_filter le)
qed

theorem Diff_ascending_witness:
  "sorted_wrt word_sless [- 2, 0, 1, 4 :: int32] \<and> sorted_wrt word_sless [- 2, 1, 7 :: int32]
   \<and> Diff [- 2, 0, 1, 4] [- 2, 1, 7] = [0, 4]
   \<and> Diff [- 2, 0, 1, 4] [- 2, 0, 1, 4] = []"
proof -
  have a: "sorted_wrt word_sless [- 2, 0, 1, 4 :: int32]" by (simp add: word_sless_alt)
  have b: "sorted_wrt word_sless [- 2, 1, 7 :: int32]" by (simp add: word_sless_alt)
  from a b Diff_ascending [OF a b] show ?thesis by simp
qed

section \<open>\<^verbatim>\<open>Serialize\<close> and the round trip\<close>

lemma Serialize_loop_concat:
  "Serialize_loop meta ks = meta @ concat (map (\<lambda>k. FormatInt k @ '','') ks)"
  by (induction ks arbitrary: meta) simp_all

text \<open>The digits that \<^verbatim>\<open>FormatInt\<close> writes, and what \<^verbatim>\<open>ParseUint\<close> reads back from them.\<close>

lemma of_char_digit_char: "d < 10 \<Longrightarrow> (of_char (digit_char d) :: nat) = 48 + d"
  by (simp add: digit_char_def)

lemma is_digit_digit_char: "d < 10 \<Longrightarrow> is_digit (digit_char d)"
  by (simp add: is_digit_def of_char_digit_char)

lemma formatBits_digits: "c \<in> set (formatBits u) \<Longrightarrow> is_digit c"
proof (induction u rule: formatBits.induct)
  case (1 u)
  show ?case
  proof (cases "u < 10")
    case True
    with "1.prems" show ?thesis
      by (simp add: formatBits.simps [of u] is_digit_digit_char)
  next
    case False
    with "1.prems" have "c \<in> set (formatBits (u div 10)) \<or> c = digit_char (u mod 10)"
      by (auto simp add: formatBits.simps [of u])
    with False "1.IH" show ?thesis
      by (auto simp add: is_digit_digit_char)
  qed
qed

lemma formatBits_not_Nil: "formatBits u \<noteq> []"
  by (simp add: formatBits.simps [of u])

lemma decimal_value_snoc:
  "decimal_value (s @ [c]) = 10 * decimal_value s + ((of_char c :: nat) - 48)"
  by (simp add: decimal_value_def)

lemma decimal_value_formatBits: "decimal_value (formatBits u) = u"
proof (induction u rule: formatBits.induct)
  case (1 u)
  show ?case
  proof (cases "u < 10")
    case True
    then show ?thesis
      by (simp add: formatBits.simps [of u] decimal_value_def of_char_digit_char)
  next
    case False
    then have "decimal_value (formatBits u) = 10 * (u div 10) + u mod 10"
      using "1.IH" by (simp add: formatBits.simps [of u] decimal_value_snoc of_char_digit_char)
    then show ?thesis by simp
  qed
qed

lemma ParseUint_loop_append:
  "ParseUint_loop n (xs @ ys) =
     (case ParseUint_loop n xs of Inl e \<Rightarrow> Inl e | Inr m \<Rightarrow> ParseUint_loop m ys)"
  by (induction xs arbitrary: n) (simp_all add: Let_def)

lemma ParseUint_loop_digit:
  assumes "d < 10" and "10 * n + d \<le> maxUint64"
  shows "ParseUint_loop n [digit_char d] = Inr (10 * n + d)"
proof -
  from assms(2) have "n \<le> maxUint64 div 10" by simp
  with assms show ?thesis
    by (simp add: of_char_digit_char Let_def mult.commute)
qed

lemma ParseUint_loop_formatBits:
  "u \<le> maxUint64 \<Longrightarrow> ParseUint_loop 0 (formatBits u) = Inr u"
proof (induction u rule: formatBits.induct)
  case (1 u)
  show ?case
  proof (cases "u < 10")
    case True
    with "1.prems" ParseUint_loop_digit [of u 0] show ?thesis
      by (simp add: formatBits.simps [of u])
  next
    case False
    from "1.prems" have "u div 10 \<le> maxUint64" by simp
    with False "1.IH" have "ParseUint_loop 0 (formatBits (u div 10)) = Inr (u div 10)" by simp
    moreover have "ParseUint_loop (u div 10) [digit_char (u mod 10)] = Inr (10 * (u div 10) + u mod 10)"
      using "1.prems" by (intro ParseUint_loop_digit) simp_all
    ultimately show ?thesis using False
      by (simp add: formatBits.simps [of u] ParseUint_loop_append)
  qed
qed

lemma ParseUint_formatBits: "u \<le> maxUint64 \<Longrightarrow> ParseUint (formatBits u) = Inr u"
  by (simp add: ParseUint_def formatBits_not_Nil ParseUint_loop_formatBits)

lemma hd_formatBits_digit: "is_digit (hd (formatBits u))"
  using formatBits_digits [of "hd (formatBits u)" u] formatBits_not_Nil [of u] by simp

lemma digit_not_sign: "is_digit c \<Longrightarrow> c \<noteq> CHR ''-'' \<and> c \<noteq> CHR ''+'' \<and> c \<noteq> CHR '',''"
  by (auto simp add: is_digit_def)

text \<open>
  \<^verbatim>\<open>ParseInt\<close> inverts \<^verbatim>\<open>FormatInt\<close> on every \<^verbatim>\<open>int64\<close>, the least one included, whose
  magnitude is the signed cutoff itself.
\<close>

lemma ParseInt_FormatInt: "ParseInt (FormatInt k) = Inr k"
proof (cases "sint k < 0")
  case False
  define u where "u = nat (sint k)"
  from False have f: "FormatInt k = formatBits u" by (simp add: FormatInt_def u_def)
  have "sint k < 2 ^ 63" using sint_lt [of k] by simp
  with False have u: "u < 2 ^ 63" by (simp add: u_def)
  then have "u \<le> maxUint64" by (simp add: maxUint64_def)
  then have p: "ParseUint (formatBits u) = Inr u" by (rule ParseUint_formatBits)
  have "word_of_nat u = k" using False by (simp add: u_def)
  with p u hd_formatBits_digit [of u, THEN digit_not_sign] show ?thesis
    by (simp add: ParseInt_def f formatBits_not_Nil)
next
  case True
  define u where "u = nat (- sint k)"
  from True have f: "FormatInt k = CHR ''-'' # formatBits u" by (simp add: FormatInt_def u_def)
  have "- (2 ^ 63) \<le> sint k" using sint_ge [of k] by simp
  with True have u: "u \<le> 2 ^ 63" by (simp add: u_def)
  then have "u \<le> maxUint64" by (simp add: maxUint64_def)
  then have p: "ParseUint (formatBits u) = Inr u" by (rule ParseUint_formatBits)
  have "- word_of_nat u = k" using True by (simp add: u_def)
  with p u show ?thesis
    by (simp add: ParseInt_def f)
qed

lemma comma_notin_FormatInt: "CHR '','' \<notin> set (FormatInt k)"
  using formatBits_digits digit_not_sign by (auto simp add: FormatInt_def)

text \<open>No token holds a comma, so \<^verbatim>\<open>Split\<close> cuts the metadata back into the tokens.\<close>

lemma Split_append_sep:
  "sep \<notin> set t \<Longrightarrow> Split (t @ sep # rest) sep = t # Split rest sep"
  by (induction t) auto

lemma Split_Serialize:
  "Split (concat (map (\<lambda>k. FormatInt k @ '','') ks)) CHR '','' = map FormatInt ks @ [[]]"
  by (induction ks) (simp_all add: Split_append_sep comma_notin_FormatInt)

lemma parsed_offsets_FormatInt: "parsed_offsets (map FormatInt ks @ [[]]) = ks"
  by (induction ks) (simp_all add: parsed_offsets_simps ParseInt_FormatInt ParseInt_Nil)

lemma valid_offsets_Serialize:
  "valid_offsets (Serialize_loop [] ks) = ks"
  by (simp add: valid_offsets_def Serialize_loop_concat Split_Serialize parsed_offsets_FormatInt)

lemma nat_sint_unat:
  fixes k :: int64
  assumes "0 \<le> sint k"
  shows "nat (sint k) = unat k"
proof -
  define u where "u = nat (sint k)"
  have "sint k < 2 ^ 63" using sint_lt [of k] by simp
  with assms have u: "u < 2 ^ 64" by (simp add: u_def)
  have "word_of_nat u = k" using assms by (simp add: u_def)
  then have "unat k = unat (word_of_nat u :: int64)" by simp
  also have "\<dots> = u mod 2 ^ 64" by (simp only: unat_of_nat) simp
  also have "\<dots> = u" using u by (rule mod_less)
  finally show ?thesis by (simp only: u_def)
qed

lemma FormatInt_decimal:
  assumes "word_sle 0 k"
  shows "FormatInt k \<noteq> [] \<and> (\<forall>c \<in> set (FormatInt k). is_digit c)
         \<and> decimal_value (FormatInt k) = unat k"
proof -
  from assms have nonneg: "0 \<le> sint k" by (simp add: word_sle_eq)
  then have f: "FormatInt k = formatBits (nat (sint k))" by (simp add: FormatInt_def)
  from nonneg have "nat (sint k) = unat k" by (rule nat_sint_unat)
  with f have f': "FormatInt k = formatBits (unat k)" by simp
  show ?thesis
    unfolding f' using formatBits_digits [of _ "unat k"]
    by (simp add: formatBits_not_Nil decimal_value_formatBits)
qed

lemma Serialize_empty:
  "range_order (PendingOffsets i) ks \<Longrightarrow> map_keys (PendingOffsets i) = {||}
     \<Longrightarrow> Metadata (Serialize ks i) = []"
  by (cases ks) (simp_all add: range_order_def Serialize_def)

lemma Deserialize_Serialize:
  assumes "range_order (PendingOffsets i) ks"
  shows "Deserialize \<lparr>Offset = off, PendingOffsets = GoMap {||},
                        Metadata = Metadata (Serialize ks i)\<rparr>
           = Inr \<lparr>Offset = off, PendingOffsets = GoMap (map_keys (PendingOffsets i)),
                   Metadata = Metadata (Serialize ks i)\<rparr>"
proof -
  from assms have keys: "fset_of_list ks = map_keys (PendingOffsets i)"
    by (simp add: range_order_def)
  have md: "Metadata (Serialize ks i) = Serialize_loop [] ks" by (simp add: Serialize_def)
  have "parsed_offsets (Split (Serialize_loop [] ks) CHR '','') = ks"
    using valid_offsets_Serialize [of ks] by (simp only: valid_offsets_def)
  then show ?thesis
    unfolding md by (simp add: Deserialize_def Deserialize_loop_GoMap keys)
qed

text \<open>
  Claim C8, as amended. As stated (any fresh ledger) the claim fails: a fresh ledger
  that is the zero value but for its metadata has a nil pending map, and \<^verbatim>\<open>Deserialize\<close>
  panics on it for every non-empty set. For every set of non-negative pending offsets
  and every order \<open>ks\<close> in which the range may visit it: \<^verbatim>\<open>Serialize\<close> writes into the
  metadata, for each offset in turn, its token followed by one comma; each token is a
  non-empty string of decimal digits whose value is the offset; the empty set gives the
  empty string; and \<^verbatim>\<open>Deserialize\<close> on a fresh ledger whose pending map is allocated and
  empty (any offset) and that carries this metadata returns the ledger with exactly the
  original pending set.
\<close>

theorem Serialize_Deserialize_roundtrip:
  assumes "range_order (PendingOffsets i) ks"
    and "\<forall>k. k |\<in>| map_keys (PendingOffsets i) \<longrightarrow> word_sle 0 k"
  shows "Metadata (Serialize ks i) = concat (map (\<lambda>k. FormatInt k @ '','') ks)
       \<and> (\<forall>k \<in> set ks. FormatInt k \<noteq> [] \<and> (\<forall>c \<in> set (FormatInt k). is_digit c)
                          \<and> decimal_value (FormatInt k) = unat k)
       \<and> (map_keys (PendingOffsets i) = {||} \<longrightarrow> Metadata (Serialize ks i) = [])
       \<and> Deserialize \<lparr>Offset = off, PendingOffsets = GoMap {||},
                        Metadata = Metadata (Serialize ks i)\<rparr>
           = Inr \<lparr>Offset = off, PendingOffsets = GoMap (map_keys (PendingOffsets i)),
                   Metadata = Metadata (Serialize ks i)\<rparr>"
proof (intro conjI)
  show "Metadata (Serialize ks i) = concat (map (\<lambda>k. FormatInt k @ '','') ks)"
    by (simp add: Serialize_def Serialize_loop_concat)
next
  from assms(1) have keys: "fset_of_list ks = map_keys (PendingOffsets i)"
    by (simp add: range_order_def)
  show "\<forall>k \<in> set ks. FormatInt k \<noteq> [] \<and> (\<forall>c \<in> set (FormatInt k). is_digit c)
                          \<and> decimal_value (FormatInt k) = unat k"
  proof
    fix k assume "k \<in> set ks"
    then have "k |\<in>| fset_of_list ks" by (simp add: fset_of_list_elem)
    with keys assms(2) have "word_sle 0 k" by simp
    then show "FormatInt k \<noteq> [] \<and> (\<forall>c \<in> set (FormatInt k). is_digit c)
                          \<and> decimal_value (FormatInt k) = unat k"
      by (rule FormatInt_decimal)
  qed
next
  from assms(1) show "map_keys (PendingOffsets i) = {||} \<longrightarrow> Metadata (Serialize ks i) = []"
    by (simp add: Serialize_empty)
next
  from assms(1) show "Deserialize \<lparr>Offset = off, PendingOffsets = GoMap {||},
                        Metadata = Metadata (Serialize ks i)\<rparr>
           = Inr \<lparr>Offset = off, PendingOffsets = GoMap (map_keys (PendingOffsets i)),
                   Metadata = Metadata (Serialize ks i)\<rparr>"
    by (rule Deserialize_Serialize)
qed

theorem Serialize_Deserialize_roundtrip_witness:
  "Metadata (Serialize [12, 7] \<lparr>Offset = 4, PendingOffsets = GoMap {|7, 12|}, Metadata = []\<rparr>)
     = ''12,7,''
   \<and> Deserialize \<lparr>Offset = 0, PendingOffsets = GoMap {||}, Metadata = ''12,7,''\<rparr>
     = Inr \<lparr>Offset = 0, PendingOffsets = GoMap {|7, 12|}, Metadata = ''12,7,''\<rparr>
   \<and> Metadata (Serialize [7, 12] \<lparr>Offset = 4, PendingOffsets = GoMap {|7, 12|}, Metadata = []\<rparr>)
     = ''7,12,''
   \<and> Deserialize \<lparr>Offset = 0, PendingOffsets = GoMap {||}, Metadata = ''7,12,''\<rparr>
     = Inr \<lparr>Offset = 0, PendingOffsets = GoMap {|7, 12|}, Metadata = ''7,12,''\<rparr>"
proof -
  let ?i = "\<lparr>Offset = 4, PendingOffsets = GoMap {|7, 12|}, Metadata = []\<rparr>"
  have r1: "range_order (PendingOffsets ?i) [12, 7]" by (auto simp add: range_order_def)
  have r2: "range_order (PendingOffsets ?i) [7, 12]" by (auto simp add: range_order_def)
  have h: "\<forall>k. k |\<in>| map_keys (PendingOffsets ?i) \<longrightarrow> word_sle 0 k"
    by (auto simp add: word_sle_eq)
  have f12: "FormatInt 12 = ''12''" by code_simp
  have f7: "FormatInt 7 = ''7''" by code_simp
  note f = f12 f7
  have m1: "Metadata (Serialize [12, 7] ?i) = ''12,7,''" by (simp add: Serialize_def f)
  have m2: "Metadata (Serialize [7, 12] ?i) = ''7,12,''" by (simp add: Serialize_def f)
  from Serialize_Deserialize_roundtrip [OF r1 h, of 0] Serialize_Deserialize_roundtrip [OF r2 h, of 0]
  show ?thesis unfolding m1 m2 by simp
qed

text \<open>
  The pending set \<open>{7}\<close> serializes to \<^verbatim>\<open>7,\<close>; \<^verbatim>\<open>Deserialize\<close> on the fresh ledger with
  this metadata and a nil pending map panics instead of returning the set.
\<close>

theorem Serialize_Deserialize_roundtrip_counterexample:
  "range_order (PendingOffsets \<lparr>Offset = 4, PendingOffsets = GoMap {|7|}, Metadata = []\<rparr>) [7]
   \<and> word_sle 0 (7 :: int64)
   \<and> Metadata (Serialize [7] \<lparr>Offset = 4, PendingOffsets = GoMap {|7|}, Metadata = []\<rparr>) = ''7,''
   \<and> Deserialize \<lparr>Offset = 0, PendingOffsets = NilMap,
         Metadata = Metadata (Serialize [7] \<lparr>Offset = 4, PendingOffsets = GoMap {|7|}, Metadata = []\<rparr>)\<rparr>
       = Inl NilMapWrite"
proof -
  let ?i = "\<lparr>Offset = 4, PendingOffsets = GoMap {|7|}, Metadata = []\<rparr>"
  have r: "range_order (PendingOffsets ?i) [7]" by (simp add: range_order_def)
  have s: "word_sle 0 (7 :: int64)" by (simp add: word_sle_eq)
  have f7: "FormatInt 7 = ''7''" by code_simp
  have m: "Metadata (Serialize [7] ?i) = ''7,''" by (simp add: Serialize_def f7)
  have d: "Deserialize \<lparr>Offset = 0, PendingOffsets = NilMap, Metadata = ''7,''\<rparr> = Inl NilMapWrite"
    by (simp add: Deserialize_def ParseInt_def ParseUint_def maxUint64_def)
  from r s m d show ?thesis by simp
qed

end
